theory Spec2Isabelle
  imports Main "HOL-Library.Sublist"
begin

section \<open>Text, as Python has it\<close>

text \<open>
  A Python \<open>str\<close> is a sequence of Unicode code points; \<open>len\<close> counts code points.
  A text is therefore a list of code points, each a natural number.
\<close>

type_synonym str = "nat list"

definition str_of :: "string \<Rightarrow> str" where
  "str_of s = map of_char s"

definition LF :: nat where "LF = 10"
definition CR :: nat where "CR = 13"

definition is_space :: "nat \<Rightarrow> bool" where
  \<comment> \<open>What \<open>\s\<close> matches in a \<open>str\<close> pattern: the code points with \<open>str.isspace()\<close>.\<close>
  "is_space c \<longleftrightarrow>
     (9 \<le> c \<and> c \<le> 13) \<or> (28 \<le> c \<and> c \<le> 32) \<or> c = 133 \<or> c = 160 \<or> c = 5760 \<or>
     (8192 \<le> c \<and> c \<le> 8202) \<or> c = 8232 \<or> c = 8233 \<or> c = 8239 \<or> c = 8287 \<or> c = 12288"

section \<open>Regular expressions: the fragment the script uses\<close>

text \<open>
  Both patterns of the script are a sequence of literal characters and of \<open>\s+\<close>,
  enclosed in one capture group: \<open>(\s+return {\s+\.\.\.session,)\<close> and
  \<open>(session: newSession)\<close>. Group 1 is the whole match.
\<close>

datatype item = Lit nat | Spaces

text \<open>
  The backtracking matcher of \<open>re\<close>, anchored at the head of the text: it returns the
  text left after the first match found, in the order the engine tries them. \<open>\s+\<close> is
  greedy: it takes one more whitespace character as long as it can, and gives characters
  back only when the rest of the pattern fails.
\<close>

fun rmatch :: "item list \<Rightarrow> str \<Rightarrow> str option" where
  "rmatch [] s = Some s"
| "rmatch (Lit c # p) [] = None"
| "rmatch (Lit c # p) (x # xs) = (if x = c then rmatch p xs else None)"
| "rmatch (Spaces # p) [] = None"
| "rmatch (Spaces # p) (x # xs) =
     (if is_space x
      then (case rmatch (Spaces # p) xs of
              Some r \<Rightarrow> Some r
            | None \<Rightarrow> rmatch p xs)
      else None)"

text \<open>
  A replacement template: literal characters and \<open>\1\<close>. The escape \<open>\n\<close> of a template
  is the literal line feed.
\<close>

datatype titem = TLit nat | Group1

fun expand :: "titem list \<Rightarrow> str \<Rightarrow> str" where
  "expand [] m = []"
| "expand (TLit c # t) m = c # expand t m"
| "expand (Group1 # t) m = m @ expand t m"

lemma rmatch_le: "rmatch p s = Some r \<Longrightarrow> length r \<le> length s"
proof (induction p s arbitrary: r rule: rmatch.induct)
  case (3 c p x xs)
  then show ?case by (fastforce split: if_splits)
next
  case (5 p x xs)
  then show ?case by (cases "rmatch (Spaces # p) xs") (fastforce split: if_splits)+
qed simp_all

lemma rmatch_length:
  assumes "rmatch (i # p) s = Some r"
  shows "length r < length s"
proof (cases s)
  case Nil
  with assms show ?thesis by (cases i) simp_all
next
  case (Cons x xs)
  show ?thesis
  proof (cases i)
    case (Lit c)
    with assms Cons have "rmatch p xs = Some r" by (simp split: if_splits)
    from rmatch_le [OF this] Cons show ?thesis by simp
  next
    case Spaces
    show ?thesis
    proof (cases "rmatch (Spaces # p) xs")
      case None
      with assms Cons Spaces have "rmatch p xs = Some r" by (simp split: if_splits)
      from rmatch_le [OF this] Cons show ?thesis by simp
    next
      case (Some r')
      with assms Cons Spaces have "rmatch (Spaces # p) xs = Some r" by (simp split: if_splits)
      from rmatch_le [OF this] Cons show ?thesis by simp
    qed
  qed
qed

text \<open>
  \<open>re.sub(pattern, repl, string)\<close>: the leftmost non-overlapping matches are replaced
  by the expanded template, scanning from left to right; the characters between matches
  are copied. A pattern that matches the empty text (here only the empty pattern) is
  replaced at every position.
\<close>

function (sequential) sub :: "item list \<Rightarrow> titem list \<Rightarrow> str \<Rightarrow> str" where
  "sub [] t s = expand t [] @ concat (map (\<lambda>c. c # expand t []) s)"
| "sub (i # p) t [] = []"
| "sub (i # p) t (x # xs) =
     (case rmatch (i # p) (x # xs) of
        None \<Rightarrow> x # sub (i # p) t xs
      | Some r \<Rightarrow> expand t (take (length (x # xs) - length r) (x # xs)) @ sub (i # p) t r)"
  by pat_completeness auto
termination
proof (relation "measure (\<lambda>(p, t, s). length s)")
  show "wf (measure (\<lambda>(p, t, s). length s))" by simp
next
  fix i p t x xs
  show "((i # p, t, xs), (i # p, t, x # xs)) \<in> measure (\<lambda>(p, t, s). length s)"
    by simp
next
  fix i p t x xs r
  assume "rmatch (i # p) (x # xs) = Some r"
  from rmatch_length [OF this]
  show "((i # p, t, r), (i # p, t, x # xs)) \<in> measure (\<lambda>(p, t, s). length s)"
    by simp
qed

section \<open>The script\<close>

definition PATH :: string where
  "PATH = ''app/api/expert-sessions/route.ts''"

definition RETURN :: str where "RETURN = str_of ''return {''"
definition SPREAD :: str where "SPREAD = str_of ''...session,''"

definition PAT1 :: "item list" where
  \<comment> \<open>\<open>(\s+return {\s+\.\.\.session,)\<close>\<close>
  "PAT1 = Spaces # map Lit RETURN @ Spaces # map Lit SPREAD"

definition INS :: str where
  "INS = LF # str_of ''        price_amount: session.price_cents, // Map price_cents to price_amount for API consistency''"

definition REPL1 :: "titem list" where
  "REPL1 = Group1 # map TLit INS"

definition TOKEN :: str where "TOKEN = str_of ''session: newSession''"

definition PAT2 :: "item list" where
  \<comment> \<open>\<open>(session: newSession)\<close>\<close>
  "PAT2 = map Lit TOKEN"

definition EXPANDED :: str where
  "EXPANDED = str_of ''session: { ...newSession, price_amount: newSession.price_cents }''"

definition REPL2 :: "titem list" where
  "REPL2 = map TLit EXPANDED"

definition rule1 :: "str \<Rightarrow> str" where
  "rule1 content = sub PAT1 REPL1 content"

definition rule2 :: "str \<Rightarrow> str" where
  "rule2 content = sub PAT2 REPL2 content"

definition patch :: "str \<Rightarrow> str" where
  \<comment> \<open>the two assignments to \<open>content\<close>, in the order of the script\<close>
  "patch content = rule2 (rule1 content)"

section \<open>Files, and the run of the script\<close>

text \<open>
  The codec is not modelled: what a file holds is the sequence of code points its bytes
  decode to under the locale's encoding, or nothing when they do not decode. Two files
  hold the same bytes exactly when they hold the same code points.
\<close>

record node =
  readable :: bool
  writable :: bool
  decoded :: "str option"

datatype error = FileNotFoundError | PermissionError | UnicodeDecodeError

datatype event = Read string str | Write string str

record world =
  files :: "string \<rightharpoonup> node"
  linesep :: str
  argv :: "string list"
  environ :: "string \<rightharpoonup> string"
  stdout :: "string list"
  trace :: "event list"

text \<open>
  \<open>open(path, 'r')\<close> opens in text mode with \<open>newline=None\<close>: on reading, the line endings
  CR LF and CR become LF; on writing, each LF becomes \<open>os.linesep\<close>.
\<close>

fun nl_in :: "str \<Rightarrow> str" where
  "nl_in [] = []"
| "nl_in [x] = [if x = CR then LF else x]"
| "nl_in (x # y # ys) =
     (if x = CR \<and> y = LF then LF # nl_in ys
      else if x = CR then LF # nl_in (y # ys)
      else x # nl_in (y # ys))"

definition nl_out :: "str \<Rightarrow> str \<Rightarrow> str" where
  "nl_out sep s = concat (map (\<lambda>c. if c = LF then sep else [c]) s)"

definition read_text :: "string \<Rightarrow> world \<Rightarrow> (error + str) \<times> world" where
  \<comment> \<open>\<open>with open(path, 'r') as f: content = f.read()\<close>\<close>
  "read_text path w =
     (case files w path of
        None \<Rightarrow> (Inl FileNotFoundError, w)
      | Some f \<Rightarrow>
          if \<not> readable f then (Inl PermissionError, w)
          else (case decoded f of
                  None \<Rightarrow> (Inl UnicodeDecodeError, w)
                | Some t \<Rightarrow> (Inr (nl_in t), w\<lparr>trace := trace w @ [Read path (nl_in t)]\<rparr>)))"

definition write_text :: "string \<Rightarrow> str \<Rightarrow> world \<Rightarrow> (error + unit) \<times> world" where
  \<comment> \<open>\<open>with open(path, 'w') as f: f.write(content)\<close>; a missing file is created\<close>
  "write_text path s w =
     (case files w path of
        None \<Rightarrow>
          (Inr (), w\<lparr>files := (files w)(path \<mapsto>
                       \<lparr>readable = True, writable = True, decoded = Some (nl_out (linesep w) s)\<rparr>),
                     trace := trace w @ [Write path s]\<rparr>)
      | Some f \<Rightarrow>
          if \<not> writable f then (Inl PermissionError, w)
          else (Inr (), w\<lparr>files := (files w)(path \<mapsto> f\<lparr>decoded := Some (nl_out (linesep w) s)\<rparr>),
                          trace := trace w @ [Write path s]\<rparr>))"

definition MESSAGE :: string where
  "MESSAGE = ''Fixed price field mapping in expert-sessions API''"

definition main :: "world \<Rightarrow> (error + unit) \<times> world" where
  \<comment> \<open>the module body; an exception ends the run where it is raised\<close>
  "main w =
     (case read_text PATH w of
        (Inl e, w1) \<Rightarrow> (Inl e, w1)
      | (Inr content, w1) \<Rightarrow>
          (let content = sub PAT1 REPL1 content;
               content = sub PAT2 REPL2 content
           in case write_text PATH content w1 of
                (Inl e, w2) \<Rightarrow> (Inl e, w2)
              | (Inr u, w2) \<Rightarrow> (Inr (), w2\<lparr>stdout := stdout w2 @ [MESSAGE]\<rparr>)))"

section \<open>Rule 2: the literal token\<close>

lemma TOKEN_code: "TOKEN = [115, 101, 115, 115, 105, 111, 110, 58, 32, 110, 101, 119, 83, 101, 115, 115, 105, 111, 110]"
  by (simp add: TOKEN_def str_of_def)

lemma length_TOKEN: "length TOKEN = 19"
  by (simp add: TOKEN_code)

lemma expand_TLit: "expand (map TLit xs) m = xs"
  by (induction xs) simp_all

lemma rmatch_lits:
  "rmatch (map Lit u @ p) s = (if prefix u s then rmatch p (drop (length u) s) else None)"
proof (induction u arbitrary: s)
  case Nil
  show ?case by simp
next
  case (Cons c u)
  show ?case by (cases s) (simp_all add: Cons.IH)
qed

lemma rmatch_PAT2:
  "rmatch PAT2 s = (if prefix TOKEN s then Some (drop 19 s) else None)"
  using rmatch_lits [of TOKEN "[]" s] by (simp add: PAT2_def length_TOKEN)

lemma rule2_Nil: "rule2 [] = []"
  by (simp add: rule2_def PAT2_def TOKEN_code)

lemma rule2_Cons:
  "rule2 (x # xs) =
     (if prefix TOKEN (x # xs) then EXPANDED @ rule2 (drop 19 (x # xs)) else x # rule2 xs)"
proof -
  obtain i p where ip: "PAT2 = i # p" by (simp add: PAT2_def TOKEN_code)
  have "rule2 (x # xs) =
     (case rmatch PAT2 (x # xs) of
        None \<Rightarrow> x # rule2 xs
      | Some r \<Rightarrow> expand REPL2 (take (length (x # xs) - length r) (x # xs)) @ rule2 r)"
    unfolding rule2_def ip by simp
  then show ?thesis
    by (simp add: rmatch_PAT2 REPL2_def expand_TLit)
qed

lemma rule2_unfold:
  "s \<noteq> [] \<Longrightarrow>
   rule2 s = (if prefix TOKEN s then EXPANDED @ rule2 (drop 19 s) else hd s # rule2 (tl s))"
  by (cases s) (simp_all add: rule2_Cons)

lemma rule2_TOKEN: "rule2 (TOKEN @ r) = EXPANDED @ rule2 r"
proof -
  have "TOKEN @ r \<noteq> []" by (simp add: TOKEN_code)
  from rule2_unfold [OF this] show ?thesis by (simp add: length_TOKEN)
qed

lemma rule2_skip: "\<not> prefix TOKEN (x # xs) \<Longrightarrow> rule2 (x # xs) = x # rule2 xs"
  by (simp add: rule2_Cons)

definition straddle2 :: "str \<Rightarrow> str \<Rightarrow> bool" where
  \<comment> \<open>an occurrence of the token that starts in \<open>x\<close> and ends in \<open>t\<close>, in \<open>x @ t\<close>\<close>
  "straddle2 x t \<longleftrightarrow> (\<exists>vs us. vs \<noteq> [] \<and> us \<noteq> [] \<and> TOKEN = vs @ us \<and> suffix vs x \<and> prefix us t)"

lemma straddle2_suffix: "suffix x' x \<Longrightarrow> straddle2 x' t \<Longrightarrow> straddle2 x t"
  unfolding straddle2_def by (meson suffix_order.trans)

lemma prefix_TOKEN_append:
  assumes "\<not> straddle2 x t" "x \<noteq> []"
  shows "prefix TOKEN (x @ t) \<longleftrightarrow> prefix TOKEN x"
proof
  assume "prefix TOKEN (x @ t)"
  then consider "prefix TOKEN x" | us where "TOKEN = x @ us" "prefix us t"
    by (auto simp: prefix_append)
  then show "prefix TOKEN x"
  proof cases
    case 1 then show ?thesis .
  next
    case 2
    show ?thesis
    proof (cases "us = []")
      case True with 2 show ?thesis by simp
    next
      case False
      with 2 assms have "straddle2 x t" unfolding straddle2_def by blast
      with assms show ?thesis by simp
    qed
  qed
qed simp

lemma rule2_append:
  "\<not> straddle2 x t \<Longrightarrow> rule2 (x @ t) = rule2 x @ rule2 t"
proof (induction x rule: length_induct)
  case (1 x)
  show ?case
  proof (cases x)
    case Nil
    then show ?thesis by (simp add: rule2_Nil)
  next
    case (Cons y ys)
    then have ne: "x \<noteq> []" "x @ t \<noteq> []" by simp_all
    note pre = prefix_TOKEN_append [OF "1.prems" ne(1)]
    show ?thesis
    proof (cases "prefix TOKEN x")
      case True
      then obtain r where r: "x = TOKEN @ r" by (auto simp: prefix_def)
      then have "length r < length x" by (simp add: length_TOKEN)
      moreover have "\<not> straddle2 r t"
        using "1.prems" straddle2_suffix [of r x t] r by (auto simp: suffix_def)
      ultimately have "rule2 (r @ t) = rule2 r @ rule2 t" using "1.IH" by blast
      then show ?thesis using rule2_TOKEN [of "r @ t"] rule2_TOKEN [of r] r by simp
    next
      case False
      have "length ys < length x" using Cons by simp
      moreover have "\<not> straddle2 ys t"
        using "1.prems" straddle2_suffix [of ys x t] Cons by (auto simp: suffix_def)
      ultimately have "rule2 (ys @ t) = rule2 ys @ rule2 t" using "1.IH" by blast
      moreover have "\<not> prefix TOKEN (x @ t)" using pre False by simp
      ultimately show ?thesis using False Cons by (simp add: rule2_Cons)
    qed
  qed
qed

lemma TOKEN_splits:
  assumes "TOKEN = vs @ us" "vs \<noteq> []" "us \<noteq> []"
  shows "\<exists>k\<in>set [1..<19]. vs = take k TOKEN \<and> us = drop k TOKEN"
proof -
  let ?k = "length vs"
  have "vs = take ?k (vs @ us)" "us = drop ?k (vs @ us)" by simp_all
  then have "vs = take ?k TOKEN" "us = drop ?k TOKEN" using assms(1) by simp_all
  moreover have "length vs + length us = 19" using assms(1) length_TOKEN by (metis length_append)
  then have "1 \<le> ?k" "?k < 19" using assms(2,3) by (cases vs; cases us; simp)+
  ultimately show ?thesis by auto
qed



lemma EXPANDED_code: "EXPANDED = [115, 101, 115, 115, 105, 111, 110, 58, 32, 123, 32, 46, 46, 46, 110, 101, 119, 83,
  101, 115, 115, 105, 111, 110, 44, 32, 112, 114, 105, 99, 101, 95, 97, 109, 111, 117, 110, 116, 58, 32, 110, 101, 119,
  83, 101, 115, 115, 105, 111, 110, 46, 112, 114, 105, 99, 101, 95, 99, 101, 110, 116, 115, 32, 125]"
  by (simp add: EXPANDED_def str_of_def)

lemma length_EXPANDED: "length EXPANDED = 64"
  by (simp add: EXPANDED_code)

lemma TOKEN_suffixes:
  assumes "TOKEN = vs @ us" "us \<noteq> []"
  shows "\<exists>k\<in>set [0..<19]. vs = take k TOKEN \<and> us = drop k TOKEN"
proof (cases "vs = []")
  case True
  with assms show ?thesis by simp
next
  case False
  from TOKEN_splits [OF assms(1) False assms(2)] show ?thesis by auto
qed

lemma TOKEN_not_into_EXPANDED:
  assumes "TOKEN = vs @ us" "us \<noteq> []"
  shows "\<not> prefix us (EXPANDED @ b)"
  using TOKEN_suffixes [OF assms] by (auto simp: TOKEN_code EXPANDED_code upt_rec [of _ 19])

lemma rule2_EXPANDED: "rule2 EXPANDED = EXPANDED"
  by (simp add: EXPANDED_code rule2_Cons rule2_Nil TOKEN_code)

lemma suffix_last: "suffix vs x \<Longrightarrow> vs \<noteq> [] \<Longrightarrow> last vs = last x"
  by (auto simp: suffix_def)

lemma not_straddle2_EXPANDED: "\<not> straddle2 EXPANDED t"
proof
  assume "straddle2 EXPANDED t"
  then obtain vs us where a: "vs \<noteq> []" "us \<noteq> []" "TOKEN = vs @ us" "suffix vs EXPANDED"
    unfolding straddle2_def by blast
  then have "last vs = last EXPANDED" by (simp add: suffix_last)
  then have "125 \<in> set vs" using a(1) last_in_set [of vs] by (simp add: EXPANDED_code)
  then have "125 \<in> set TOKEN" unfolding a(3) by simp
  then show False by (simp add: TOKEN_code)
qed

lemma prefix_TOKEN_rule2:
  "prefix TOKEN (u @ rule2 s) \<Longrightarrow> prefix TOKEN (u @ s)"
proof (induction s arbitrary: u rule: length_induct)
  case (1 s)
  show ?case
  proof (cases s)
    case Nil
    with "1.prems" show ?thesis by (simp add: rule2_Nil)
  next
    case (Cons y ys)
    show ?thesis
    proof (cases "prefix TOKEN s")
      case True
      then obtain r where r: "s = TOKEN @ r" by (auto simp: prefix_def)
      with "1.prems" have "prefix TOKEN (u @ EXPANDED @ rule2 r)" by (simp add: rule2_TOKEN)
      then consider "prefix TOKEN u" | us where "TOKEN = u @ us" "prefix us (EXPANDED @ rule2 r)"
        by (auto simp: prefix_append)
      then show ?thesis
      proof cases
        case 1 then show ?thesis by simp
      next
        case 2
        then have "us = []" using TOKEN_not_into_EXPANDED [of u us "rule2 r"] by blast
        with 2 show ?thesis by simp
      qed
    next
      case False
      with Cons "1.prems" have "prefix TOKEN ((u @ [y]) @ rule2 ys)" by (simp add: rule2_Cons)
      moreover have "length ys < length s" using Cons by simp
      ultimately have "prefix TOKEN ((u @ [y]) @ ys)" using "1.IH" by blast
      with Cons show ?thesis by simp
    qed
  qed
qed

lemma rule2_idem: "rule2 (rule2 s) = rule2 s"
proof (induction s rule: length_induct)
  case (1 s)
  show ?case
  proof (cases s)
    case Nil
    then show ?thesis by (simp add: rule2_Nil)
  next
    case (Cons y ys)
    show ?thesis
    proof (cases "prefix TOKEN s")
      case True
      then obtain r where r: "s = TOKEN @ r" by (auto simp: prefix_def)
      then have "length r < length s" by (simp add: length_TOKEN)
      then have "rule2 (rule2 r) = rule2 r" using "1.IH" by blast
      then show ?thesis
        using r rule2_append [OF not_straddle2_EXPANDED, of "rule2 r"]
        by (simp add: rule2_TOKEN rule2_EXPANDED)
    next
      case False
      then have "\<not> prefix TOKEN (y # rule2 ys)"
        using prefix_TOKEN_rule2 [of "[y]" ys] Cons by auto
      moreover have "rule2 (rule2 ys) = rule2 ys" using "1.IH" Cons by simp
      ultimately show ?thesis using False Cons by (simp add: rule2_Cons)
    qed
  qed
qed

lemma rule2_length: "length s \<le> length (rule2 s)"
proof (induction s rule: length_induct)
  case (1 s)
  show ?case
  proof (cases s)
    case Nil
    then show ?thesis by simp
  next
    case (Cons y ys)
    show ?thesis
    proof (cases "prefix TOKEN s")
      case True
      then obtain r where r: "s = TOKEN @ r" by (auto simp: prefix_def)
      then have "length r < length s" by (simp add: length_TOKEN)
      then have "length r \<le> length (rule2 r)" using "1.IH" by blast
      then show ?thesis using r by (simp add: rule2_TOKEN length_TOKEN length_EXPANDED)
    next
      case False
      moreover have "length ys \<le> length (rule2 ys)" using "1.IH" Cons by simp
      ultimately show ?thesis using Cons by (simp add: rule2_Cons)
    qed
  qed
qed

lemma rule2_no_occurrence: "\<not> sublist TOKEN s \<Longrightarrow> rule2 s = s"
proof (induction s)
  case Nil
  show ?case by (simp add: rule2_Nil)
next
  case (Cons y ys)
  have "\<not> prefix TOKEN (y # ys)" using Cons.prems by (auto dest: prefix_imp_sublist)
  moreover have "\<not> sublist TOKEN ys" using Cons.prems by (auto simp: sublist_Cons_right)
  ultimately show ?case using Cons.IH by (simp add: rule2_Cons)
qed

section \<open>Rule 1: the spreading return\<close>

definition spaces :: "str \<Rightarrow> bool" where
  \<comment> \<open>one or more whitespace characters\<close>
  "spaces w \<longleftrightarrow> w \<noteq> [] \<and> list_all is_space w"

definition shape :: "str \<Rightarrow> str \<Rightarrow> str" where
  \<comment> \<open>whitespace, \<open>return {\<close>, whitespace, \<open>...session,\<close>\<close>
  "shape w1 w2 = w1 @ RETURN @ w2 @ SPREAD"

lemma RETURN_code: "RETURN = [114, 101, 116, 117, 114, 110, 32, 123]"
  by (simp add: RETURN_def str_of_def)

lemma SPREAD_code: "SPREAD = [46, 46, 46, 115, 101, 115, 115, 105, 111, 110, 44]"
  by (simp add: SPREAD_def str_of_def)

lemma INS_code: "INS = [10, 32, 32, 32, 32, 32, 32, 32, 32, 112, 114, 105, 99, 101, 95, 97, 109, 111, 117, 110, 116,
  58, 32, 115, 101, 115, 115, 105, 111, 110, 46, 112, 114, 105, 99, 101, 95, 99, 101, 110, 116, 115, 44, 32, 47, 47,
  32, 77, 97, 112, 32, 112, 114, 105, 99, 101, 95, 99, 101, 110, 116, 115, 32, 116, 111, 32, 112, 114, 105, 99, 101,
  95, 97, 109, 111, 117, 110, 116, 32, 102, 111, 114, 32, 65, 80, 73, 32, 99, 111, 110, 115, 105, 115, 116, 101, 110,
  99, 121]"
  by (simp add: INS_def str_of_def LF_def)

lemma length_RETURN: "length RETURN = 8" by (simp add: RETURN_code)
lemma length_SPREAD: "length SPREAD = 11" by (simp add: SPREAD_code)

lemma rmatch_spaces:
  "\<not> is_space c \<Longrightarrow>
   rmatch (Spaces # Lit c # p) s =
     (if s \<noteq> [] \<and> is_space (hd s) then rmatch (Lit c # p) (dropWhile is_space s) else None)"
proof (induction s)
  case Nil
  show ?case by simp
next
  case (Cons x xs)
  then show ?case by (cases xs) (auto split: option.splits)
qed

definition after_shape :: "str \<Rightarrow> str option" where
  \<comment> \<open>the text after an occurrence of the shape at the head of \<open>s\<close>\<close>
  "after_shape s =
     (if s \<noteq> [] \<and> is_space (hd s) then
        (let r1 = dropWhile is_space s in
         if prefix RETURN r1 then
           (let r2 = drop 8 r1 in
            if r2 \<noteq> [] \<and> is_space (hd r2) then
              (let r3 = dropWhile is_space r2 in
               if prefix SPREAD r3 then Some (drop 11 r3) else None)
            else None)
         else None)
      else None)"

lemma rmatch_PAT1: "rmatch PAT1 s = after_shape s"
proof -
  have n: "\<not> is_space 114" "\<not> is_space 46" by (simp_all add: is_space_def)
  have e: "rmatch (map Lit SPREAD) s' = (if prefix SPREAD s' then Some (drop 11 s') else None)" for s'
    using rmatch_lits [of SPREAD "[]" s'] by (simp add: length_SPREAD)
  have f: "rmatch (Spaces # map Lit SPREAD) s' =
      (if s' \<noteq> [] \<and> is_space (hd s') then rmatch (map Lit SPREAD) (dropWhile is_space s') else None)" for s'
    using rmatch_spaces [OF n(2), of "map Lit (tl SPREAD)" s'] by (simp add: SPREAD_code)
  have g: "rmatch (map Lit RETURN @ p) s' = (if prefix RETURN s' then rmatch p (drop 8 s') else None)" for p s'
    using rmatch_lits [of RETURN p s'] by (simp add: length_RETURN)
  have h: "rmatch PAT1 s =
      (if s \<noteq> [] \<and> is_space (hd s)
       then rmatch (map Lit RETURN @ Spaces # map Lit SPREAD) (dropWhile is_space s) else None)"
    using rmatch_spaces [OF n(1), of "map Lit (tl RETURN) @ Spaces # map Lit SPREAD" s]
    by (simp add: PAT1_def RETURN_code)
  show ?thesis unfolding h g f e after_shape_def Let_def by simp
qed



lemma dropWhile_spaces:
  "list_all is_space w \<Longrightarrow> z \<noteq> [] \<Longrightarrow> \<not> is_space (hd z) \<Longrightarrow> dropWhile is_space (w @ z) = z"
  by (induction w) (auto simp: neq_Nil_conv)

lemma spaces_hd: "spaces w \<Longrightarrow> w @ x \<noteq> [] \<and> is_space (hd (w @ x))"
  by (cases w) (simp_all add: spaces_def)

lemma after_shape_complete:
  assumes "spaces w1" "spaces w2"
  shows "after_shape (shape w1 w2 @ z) = Some z"
proof -
  have n: "\<not> is_space 114" "\<not> is_space 46" by (simp_all add: is_space_def)
  have 1: "dropWhile is_space (w1 @ RETURN @ w2 @ SPREAD @ z) = RETURN @ w2 @ SPREAD @ z"
    using assms(1) n(1) by (intro dropWhile_spaces) (simp_all add: spaces_def RETURN_code)
  have 2: "dropWhile is_space (w2 @ SPREAD @ z) = SPREAD @ z"
    using assms(2) n(2) by (intro dropWhile_spaces) (simp_all add: spaces_def SPREAD_code)
  note 3 = spaces_hd [OF assms(1), of "RETURN @ w2 @ SPREAD @ z"]
  note 4 = spaces_hd [OF assms(2), of "SPREAD @ z"]
  have 5: "drop 8 (RETURN @ w2 @ SPREAD @ z) = w2 @ SPREAD @ z" by (simp add: length_RETURN)
  have 6: "drop 11 (SPREAD @ z) = z" by (simp add: length_SPREAD)
  have 7: "prefix RETURN (RETURN @ w2 @ SPREAD @ z)" "prefix SPREAD (SPREAD @ z)" by simp_all
  have "after_shape (w1 @ RETURN @ w2 @ SPREAD @ z) = Some z"
    unfolding after_shape_def Let_def 1 5 2 6 using 3 4 7 by simp
  then show ?thesis by (simp add: shape_def)
qed


lemma spaces_takeWhile: "s \<noteq> [] \<Longrightarrow> is_space (hd s) \<Longrightarrow> spaces (takeWhile is_space s)"
  by (cases s) (auto simp: spaces_def list_all_iff dest: set_takeWhileD)

lemma after_shape_sound:
  assumes "after_shape s = Some r"
  shows "\<exists>w1 w2. spaces w1 \<and> spaces w2 \<and> s = shape w1 w2 @ r"
proof -
  define r1 where "r1 = dropWhile is_space s"
  define r2 where "r2 = drop 8 r1"
  define r3 where "r3 = dropWhile is_space r2"
  from assms have a: "s \<noteq> []" "is_space (hd s)" "prefix RETURN r1" "r2 \<noteq> []" "is_space (hd r2)"
      "prefix SPREAD r3" "r = drop 11 r3"
    unfolding after_shape_def Let_def r1_def r2_def r3_def by (simp_all split: if_splits)
  define w1 where "w1 = takeWhile is_space s"
  define w2 where "w2 = takeWhile is_space r2"
  have sp: "spaces w1" "spaces w2"
    unfolding w1_def w2_def using a by (simp_all add: spaces_takeWhile)
  have e1: "s = w1 @ r1" unfolding w1_def r1_def by simp
  have e2: "r1 = RETURN @ r2"
    using a(3) unfolding r2_def by (auto simp: prefix_def length_RETURN)
  have e3: "r2 = w2 @ r3" unfolding w2_def r3_def by simp
  have e4: "r3 = SPREAD @ r"
    using a(6,7) by (auto simp: prefix_def length_SPREAD)
  have "s = shape w1 w2 @ r"
    unfolding shape_def by (subst e1, subst e2, subst e3, subst e4) simp
  with sp show ?thesis by blast
qed

lemma rule1_Nil: "rule1 [] = []"
  by (simp add: rule1_def PAT1_def)

lemma expand_REPL1: "expand REPL1 m = m @ INS"
  by (simp add: REPL1_def expand_TLit)

lemma rule1_Cons:
  "rule1 (x # xs) =
     (case after_shape (x # xs) of
        None \<Rightarrow> x # rule1 xs
      | Some r \<Rightarrow> take (length (x # xs) - length r) (x # xs) @ INS @ rule1 r)"
proof -
  obtain i p where ip: "PAT1 = i # p" by (simp add: PAT1_def)
  have "rule1 (x # xs) =
     (case rmatch PAT1 (x # xs) of
        None \<Rightarrow> x # rule1 xs
      | Some r \<Rightarrow> expand REPL1 (take (length (x # xs) - length r) (x # xs)) @ rule1 r)"
    unfolding rule1_def ip by simp
  then show ?thesis by (simp add: rmatch_PAT1 expand_REPL1 split: option.splits)
qed

lemma shape_nonempty: "shape w1 w2 @ z \<noteq> []"
  by (simp add: shape_def RETURN_code)

lemma rule1_shape:
  assumes "spaces w1" "spaces w2"
  shows "rule1 (shape w1 w2 @ z) = shape w1 w2 @ INS @ rule1 z"
proof -
  obtain x xs where e: "shape w1 w2 @ z = x # xs"
    using shape_nonempty [of w1 w2 z] by (cases "shape w1 w2 @ z") auto
  have "after_shape (x # xs) = Some z"
    using after_shape_complete [OF assms, of z] e by simp
  then have "rule1 (x # xs) = take (length (x # xs) - length z) (x # xs) @ INS @ rule1 z"
    by (simp add: rule1_Cons)
  moreover have "take (length (x # xs) - length z) (x # xs) = shape w1 w2"
    unfolding e [symmetric] by simp
  ultimately show ?thesis using e by simp
qed

lemma rule1_skip: "after_shape (x # xs) = None \<Longrightarrow> rule1 (x # xs) = x # rule1 xs"
  by (simp add: rule1_Cons)

definition straddle1 :: "str \<Rightarrow> str \<Rightarrow> bool" where
  \<comment> \<open>an occurrence of the shape that starts in \<open>x\<close> and ends in \<open>t\<close>, in \<open>x @ t\<close>\<close>
  "straddle1 x t \<longleftrightarrow>
     (\<exists>w1 w2 m1 m2. spaces w1 \<and> spaces w2 \<and> m1 \<noteq> [] \<and> m2 \<noteq> [] \<and>
        shape w1 w2 = m1 @ m2 \<and> suffix m1 x \<and> prefix m2 t)"

lemma straddle1_suffix: "suffix x' x \<Longrightarrow> straddle1 x' t \<Longrightarrow> straddle1 x t"
  unfolding straddle1_def by (meson suffix_order.trans)

lemma after_shape_append:
  assumes "\<not> straddle1 x t" "x \<noteq> []" "after_shape x = None"
  shows "after_shape (x @ t) = None"
proof (cases "after_shape (x @ t)")
  case None
  then show ?thesis .
next
  case (Some r')
  from after_shape_sound [OF this] obtain w1 w2
    where sp: "spaces w1" "spaces w2" and e: "x @ t = shape w1 w2 @ r'" by blast
  from e consider us where "x = shape w1 w2 @ us" | us where "x @ us = shape w1 w2" "t = us @ r'"
    by (auto simp: append_eq_append_conv2)
  then show ?thesis
  proof cases
    case 1
    with after_shape_complete [OF sp, of us] assms(3) show ?thesis by simp
  next
    case 2
    show ?thesis
    proof (cases "us = []")
      case True
      with 2 after_shape_complete [OF sp, of "[]"] assms(3) show ?thesis by simp
    next
      case False
      with 2 sp assms(2) have "straddle1 x t"
        unfolding straddle1_def by (metis prefixI suffix_order.refl)
      with assms(1) show ?thesis by simp
    qed
  qed
qed

lemma rule1_append:
  "\<not> straddle1 x t \<Longrightarrow> rule1 (x @ t) = rule1 x @ rule1 t"
proof (induction x rule: length_induct)
  case (1 x)
  show ?case
  proof (cases x)
    case Nil
    then show ?thesis by (simp add: rule1_Nil)
  next
    case (Cons y ys)
    show ?thesis
    proof (cases "after_shape x")
      case None
      have "after_shape (x @ t) = None"
        using after_shape_append [OF "1.prems" _ None] Cons by simp
      moreover have "\<not> straddle1 ys t"
        using "1.prems" straddle1_suffix [of ys x t] Cons by (auto simp: suffix_def)
      then have "rule1 (ys @ t) = rule1 ys @ rule1 t" using "1.IH" Cons by simp
      ultimately show ?thesis using None Cons by (simp add: rule1_Cons)
    next
      case (Some r)
      from after_shape_sound [OF this] obtain w1 w2
        where sp: "spaces w1" "spaces w2" and e: "x = shape w1 w2 @ r" by blast
      have "length r < length x" using e by (simp add: shape_def length_RETURN)
      moreover have "\<not> straddle1 r t"
        using "1.prems" straddle1_suffix [of r x t] e by (auto simp: suffix_def)
      ultimately have "rule1 (r @ t) = rule1 r @ rule1 t" using "1.IH" by blast
      then show ?thesis
        using rule1_shape [OF sp, of "r @ t"] rule1_shape [OF sp, of r] e by simp
    qed
  qed
qed

lemma comma_in_shape: "44 \<in> set (shape w1 w2)"
  by (simp add: shape_def SPREAD_code)

lemma rule1_no_comma: "44 \<notin> set s \<Longrightarrow> rule1 s = s"
proof (induction s)
  case Nil
  show ?case by (simp add: rule1_Nil)
next
  case (Cons y ys)
  have "after_shape (y # ys) = None"
  proof (cases "after_shape (y # ys)")
    case (Some r)
    from after_shape_sound [OF this] obtain w1 w2 where "y # ys = shape w1 w2 @ r" by blast
    then have "44 \<in> set (y # ys)" using comma_in_shape [of w1 w2] by (metis Un_iff set_append)
    with Cons.prems show ?thesis by simp
  qed simp
  with Cons show ?case by (simp add: rule1_Cons)
qed

lemma rule1_length: "length s \<le> length (rule1 s)"
proof (induction s rule: length_induct)
  case (1 s)
  show ?case
  proof (cases s)
    case Nil
    then show ?thesis by simp
  next
    case (Cons y ys)
    show ?thesis
    proof (cases "after_shape s")
      case None
      moreover have "length ys \<le> length (rule1 ys)" using "1.IH" Cons by simp
      ultimately show ?thesis using Cons by (simp add: rule1_Cons)
    next
      case (Some r)
      from after_shape_sound [OF this] obtain w1 w2
        where sp: "spaces w1" "spaces w2" and e: "s = shape w1 w2 @ r" by blast
      have "length r < length s" using e by (simp add: shape_def length_RETURN)
      then have "length r \<le> length (rule1 r)" using "1.IH" by blast
      then show ?thesis using rule1_shape [OF sp, of r] e by simp
    qed
  qed
qed

lemma append_eq_cases:
  assumes "xs @ ys = zs @ ts"
  obtains (left) us where "xs = zs @ us" "us @ ys = ts"
    | (right) us where "us \<noteq> []" "zs = xs @ us" "ys = us @ ts"
proof -
  from assms obtain us where "xs = zs @ us \<and> us @ ys = ts \<or> xs @ us = zs \<and> ys = us @ ts"
    unfolding append_eq_append_conv2 by blast
  then show thesis
  proof (elim disjE conjE)
    assume "xs = zs @ us" "us @ ys = ts"
    then show thesis by (rule left)
  next
    assume a: "xs @ us = zs" "ys = us @ ts"
    show thesis
    proof (cases "us = []")
      case True
      with a have "xs = zs @ []" "[] @ ys = ts" by simp_all
      then show thesis by (rule left)
    next
      case False
      with a show thesis using right [of us] by simp
    qed
  qed
qed

lemma RETURN_space_split:
  assumes "RETURN = r1 @ r2" "r2 \<noteq> []" "is_space (hd r2)"
  shows "r2 = [32, 123]"
proof -
  have "r2 = drop (length r1) (r1 @ r2)" by simp
  then have "r2 = drop (length r1) RETURN" using assms(1) by simp
  moreover have "length r1 + length r2 = 8" using assms(1) length_RETURN by (metis length_append)
  then have "length r1 \<in> set [0..<8]" using assms(2) by (cases r2) simp_all
  ultimately show ?thesis using assms(3)
    by (auto simp: RETURN_code is_space_def upt_rec [of _ 8])
qed

lemma SPREAD_nonspace: "c \<in> set SPREAD \<Longrightarrow> \<not> is_space c"
  by (auto simp: SPREAD_code is_space_def)

lemma RETURN_last_nonspace: "\<not> is_space (last RETURN)"
  by (simp add: RETURN_code is_space_def)

lemma spaces_last: "spaces w \<Longrightarrow> is_space (last w)"
  by (simp add: spaces_def list_all_iff)

lemma spaces_prefix_last: "list_all is_space w \<Longrightarrow> w = u @ v \<Longrightarrow> u \<noteq> [] \<Longrightarrow> is_space (last u)"
  by (simp add: list_all_iff)

text \<open>Cutting a shape between a character that is not whitespace and a whitespace.\<close>

lemma shape_cut:
  assumes sp: "spaces w1" "spaces w2"
    and e: "shape w1 w2 = m1 @ m2"
    and ne: "m1 \<noteq> []" "m2 \<noteq> []"
    and b: "\<not> is_space (last m1)" "is_space (hd m2)"
  shows "m2 = [32, 123] @ w2 @ SPREAD \<or> m2 = w2 @ SPREAD"
proof -
  have l1: "list_all is_space w1" "list_all is_space w2" using sp by (simp_all add: spaces_def)
  from e have "w1 @ (RETURN @ w2 @ SPREAD) = m1 @ m2" by (simp add: shape_def)
  then show ?thesis
  proof (cases rule: append_eq_cases)
    case (left us)
    with l1(1) ne(1) b(1) show ?thesis using spaces_prefix_last by blast
  next
    case (right us)
    have lm: "last m1 = last us" using right by simp
    from right(3) have "RETURN @ (w2 @ SPREAD) = us @ m2" by simp
    then show ?thesis
    proof (cases rule: append_eq_cases)
      case (left vs)
      show ?thesis
      proof (cases "vs = []")
        case True
        with left show ?thesis by simp
      next
        case False
        with b(2) left have "is_space (hd vs)" by auto
        from RETURN_space_split [OF left(1) False this] left(2) show ?thesis by simp
      qed
    next
      case (right vs)
      have lu: "last us = last vs" using right by simp
      from right(3) show ?thesis
      proof (cases rule: append_eq_cases)
        case (left ws)
        with l1(2) right(1) have "is_space (last vs)" using spaces_prefix_last by blast
        with b(1) lm lu show ?thesis by simp
      next
        case (right ws)
        have "set m2 \<subseteq> set SPREAD" unfolding right(3) by simp
        then have "hd m2 \<in> set SPREAD" using ne(2) hd_in_set by blast
        with b(2) SPREAD_nonspace show ?thesis by blast
      qed
    qed
  qed
qed

lemma split_trailing_spaces:
  obtains a0 w0 where "a = a0 @ w0" "list_all is_space w0" "a0 = [] \<or> \<not> is_space (last a0)"
proof -
  let ?w0 = "rev (takeWhile is_space (rev a))"
  let ?a0 = "rev (dropWhile is_space (rev a))"
  have "a = ?a0 @ ?w0" by (metis rev_append rev_rev_ident takeWhile_dropWhile_id)
  moreover have "list_all is_space ?w0" by (auto simp: list_all_iff dest: set_takeWhileD)
  moreover have "?a0 = [] \<or> \<not> is_space (last ?a0)"
    by (metis hd_dropWhile last_rev rev_is_Nil_conv)
  ultimately show thesis using that by blast
qed

lemma shape_last: "last (shape w1 w2) = 44"
  by (simp add: shape_def SPREAD_code)

lemma no_straddle1_no_comma: "44 \<notin> set t \<Longrightarrow> \<not> straddle1 x t"
proof
  assume n: "44 \<notin> set t" and "straddle1 x t"
  then obtain w1 w2 m1 m2 where a: "m2 \<noteq> []" "shape w1 w2 = m1 @ m2" "prefix m2 t"
    unfolding straddle1_def by blast
  have "last m2 = 44" using a(1) shape_last [of w1 w2] unfolding a(2) by simp
  then have "44 \<in> set m2" using a(1) last_in_set by metis
  then have "44 \<in> set t" using a(3) set_mono_prefix by blast
  with n show False by simp
qed

lemma spaces_no_comma: "list_all is_space w \<Longrightarrow> 44 \<notin> set w"
  by (auto simp: list_all_iff is_space_def)

lemma no_straddle1_shape:
  assumes a0: "a0 = [] \<or> \<not> is_space (last a0)" and W: "spaces W"
  shows "\<not> straddle1 a0 (W @ RETURN @ z)"
proof
  assume "straddle1 a0 (W @ RETURN @ z)"
  then obtain w1 w2 m1 m2 where sp: "spaces w1" "spaces w2" and ne: "m1 \<noteq> []" "m2 \<noteq> []"
    and e: "shape w1 w2 = m1 @ m2" and s: "suffix m1 a0" and p: "prefix m2 (W @ RETURN @ z)"
    unfolding straddle1_def by blast
  from s ne(1) have "a0 \<noteq> []" "last m1 = last a0" by (auto simp: suffix_def)
  with a0 have b1: "\<not> is_space (last m1)" by simp
  obtain c W' where Wc: "W = c # W'" "is_space c" "list_all is_space W'"
    using W by (cases W) (auto simp: spaces_def)
  from p ne(2) have "hd m2 = c" unfolding Wc by (cases m2) simp_all
  with Wc have b2: "is_space (hd m2)" by simp
  from shape_cut [OF sp e ne b1 b2] show False
  proof
    assume "m2 = [32, 123] @ w2 @ SPREAD"
    with p have "prefix (123 # w2 @ SPREAD) (W' @ RETURN @ z)" unfolding Wc by simp
    then have "hd (W' @ RETURN @ z) = 123" by (cases "W' @ RETURN @ z") simp_all
    then show False using Wc(3)
      by (cases W') (simp_all add: RETURN_code is_space_def)
  next
    assume "m2 = w2 @ SPREAD"
    with p obtain z' where "W @ RETURN @ z = w2 @ SPREAD @ z'" by (auto simp: prefix_def)
    then have "dropWhile is_space (W @ RETURN @ z) = dropWhile is_space (w2 @ SPREAD @ z')" by simp
    moreover have "dropWhile is_space (W @ RETURN @ z) = RETURN @ z"
      using W by (intro dropWhile_spaces) (simp_all add: spaces_def RETURN_code is_space_def)
    moreover have "dropWhile is_space (w2 @ SPREAD @ z') = SPREAD @ z'"
      using sp(2) by (intro dropWhile_spaces) (simp_all add: spaces_def SPREAD_code is_space_def)
    ultimately show False by (simp add: RETURN_code SPREAD_code)
  qed
qed

lemma rule1_occurrence:
  assumes "spaces w1" "spaces w2"
  shows "rule1 (a @ shape w1 w2 @ b) = rule1 a @ shape w1 w2 @ INS @ rule1 b"
proof -
  obtain a0 w0 where a: "a = a0 @ w0" "list_all is_space w0" "a0 = [] \<or> \<not> is_space (last a0)"
    by (rule split_trailing_spaces)
  have W: "spaces (w0 @ w1)" using assms(1) a(2) by (simp add: spaces_def)
  have "rule1 (a0 @ w0) = rule1 a0 @ rule1 w0"
    using a(2) by (intro rule1_append no_straddle1_no_comma spaces_no_comma)
  then have 1: "rule1 a = rule1 a0 @ w0"
    using a(1,2) by (simp add: rule1_no_comma spaces_no_comma)
  have "a @ shape w1 w2 @ b = a0 @ ((w0 @ w1) @ RETURN @ (w2 @ SPREAD @ b))"
    by (simp add: a(1) shape_def)
  moreover have "rule1 (a0 @ ((w0 @ w1) @ RETURN @ (w2 @ SPREAD @ b))) =
      rule1 a0 @ rule1 ((w0 @ w1) @ RETURN @ (w2 @ SPREAD @ b))"
    by (intro rule1_append no_straddle1_shape a(3) W)
  moreover have "rule1 (shape (w0 @ w1) w2 @ b) = shape (w0 @ w1) w2 @ INS @ rule1 b"
    by (rule rule1_shape [OF W assms(2)])
  ultimately show ?thesis using 1 by (simp add: shape_def)
qed

section \<open>The run\<close>

fun event_path :: "event \<Rightarrow> string" where
  "event_path (Read p t) = p"
| "event_path (Write p t) = p"

lemma main_ok:
  assumes "files w PATH = Some f" "readable f" "writable f" "decoded f = Some raw"
  shows "main w =
    (Inr (),
     w\<lparr>files := (files w)(PATH \<mapsto> f\<lparr>decoded := Some (nl_out (linesep w) (patch (nl_in raw)))\<rparr>),
       trace := trace w @ [Read PATH (nl_in raw), Write PATH (patch (nl_in raw))],
       stdout := stdout w @ [MESSAGE]\<rparr>)"
  using assms
  by (simp add: main_def read_text_def write_text_def patch_def rule1_def rule2_def Let_def)

lemma main_read_fails:
  assumes "fst (read_text PATH w) = Inl e"
  shows "main w = (Inl e, w)"
  using assms
  by (auto simp: main_def read_text_def split: option.splits if_splits)

lemma main_write_fails:
  assumes "files w PATH = Some f" "readable f" "\<not> writable f" "decoded f = Some raw"
  shows "main w = (Inl PermissionError, w\<lparr>trace := trace w @ [Read PATH (nl_in raw)]\<rparr>)"
  using assms
  by (simp add: main_def read_text_def write_text_def Let_def)

lemma main_cases:
  obtains (missing) "files w PATH = None"
  | (unreadable) f where "files w PATH = Some f" "\<not> readable f"
  | (undecodable) f where "files w PATH = Some f" "readable f" "decoded f = None"
  | (readonly) f raw where "files w PATH = Some f" "readable f" "decoded f = Some raw" "\<not> writable f"
  | (ok) f raw where "files w PATH = Some f" "readable f" "decoded f = Some raw" "writable f"
  by (cases "files w PATH"; cases "decoded (the (files w PATH))"; auto)

lemma nl_in_no_CR: "CR \<notin> set s \<Longrightarrow> nl_in s = s"
  by (induction s rule: nl_in.induct) auto

lemma nl_out_LF: "nl_out [LF] s = s"
  by (induction s) (simp_all add: nl_out_def)

section \<open>The two rules together\<close>

lemma no_straddle2_last: "x \<noteq> [] \<Longrightarrow> last x \<notin> set TOKEN \<Longrightarrow> \<not> straddle2 x t"
proof
  assume x: "x \<noteq> []" "last x \<notin> set TOKEN" and "straddle2 x t"
  then obtain vs us where a: "vs \<noteq> []" "TOKEN = vs @ us" "suffix vs x"
    unfolding straddle2_def by blast
  then have "last vs = last x" by (simp add: suffix_last)
  then have "last x \<in> set vs" using a(1) last_in_set by metis
  then have "last x \<in> set TOKEN" unfolding a(2) by simp
  with x show False by simp
qed

lemma TOKEN_space_suffix:
  assumes "TOKEN = vs @ us" "us \<noteq> []" "is_space (hd us)"
  shows "us = [32, 110, 101, 119, 83, 101, 115, 115, 105, 111, 110]"
proof -
  obtain c us' where us: "us = c # us'" using assms(2) by (cases us) auto
  have "c \<in> set TOKEN" unfolding assms(1) us by simp
  moreover have "is_space c" using assms(3) us by simp
  ultimately have c: "c = 32" by (auto simp: TOKEN_code is_space_def)
  let ?A = "[115, 101, 115, 115, 105, 111, 110, 58] :: nat list"
  let ?B = "[110, 101, 119, 83, 101, 115, 115, 105, 111, 110] :: nat list"
  have "?A @ 32 # ?B = vs @ 32 # us'" using assms(1) us c by (simp add: TOKEN_code)
  moreover have "32 \<notin> set ?A" "32 \<notin> set ?B" by simp_all
  ultimately have "us' = ?B" using append_Cons_eq_iff [of 32 ?A ?B vs us'] by blast
  with us c show ?thesis by simp
qed

lemma no_straddle2_spaces:
  assumes "spaces w"
  shows "\<not> straddle2 x (w @ RETURN @ z)"
proof
  assume "straddle2 x (w @ RETURN @ z)"
  then obtain vs us where a: "vs \<noteq> []" "us \<noteq> []" "TOKEN = vs @ us" "prefix us (w @ RETURN @ z)"
    unfolding straddle2_def by blast
  obtain c w' where w: "w = c # w'" "is_space c" "list_all is_space w'"
    using assms by (cases w) (auto simp: spaces_def)
  from a(2,4) have "hd us = c" unfolding w by (cases us) simp_all
  with w have h: "is_space (hd us)" by simp
  from TOKEN_space_suffix [OF a(3,2) h] have "us = [32, 110, 101, 119, 83, 101, 115, 115, 105, 111, 110]" .
  with a(4) have "prefix [110, 101, 119, 83, 101, 115, 115, 105, 111, 110] (w' @ RETURN @ z)"
    unfolding w by simp
  then have "hd (w' @ RETURN @ z) = 110" by (cases "w' @ RETURN @ z") simp_all
  then show False using w(3) by (cases w') (simp_all add: RETURN_code is_space_def)
qed

lemma no_TOKEN_without_w: "119 \<notin> set s \<Longrightarrow> \<not> sublist TOKEN s"
proof
  assume "119 \<notin> set s" "sublist TOKEN s"
  moreover have "119 \<in> set TOKEN" by (simp add: TOKEN_code)
  ultimately show False using set_mono_sublist by blast
qed

lemma spaces_no_w: "list_all is_space w \<Longrightarrow> 119 \<notin> set w"
  by (auto simp: list_all_iff is_space_def)

lemma rule2_shape_INS:
  assumes "spaces w1" "spaces w2"
  shows "rule2 (x @ shape w1 w2 @ INS @ y) = rule2 x @ shape w1 w2 @ INS @ rule2 y"
proof -
  let ?m = "shape w1 w2 @ INS"
  have "119 \<notin> set ?m"
    using assms spaces_no_w by (auto simp: shape_def spaces_def RETURN_code SPREAD_code INS_code)
  then have 1: "rule2 ?m = ?m" by (intro rule2_no_occurrence no_TOKEN_without_w)
  have "\<not> straddle2 ?m y"
    by (rule no_straddle2_last) (simp_all add: INS_code TOKEN_code)
  then have 2: "rule2 (?m @ y) = ?m @ rule2 y" using 1 rule2_append [of ?m y] by simp
  have "\<not> straddle2 x (w1 @ RETURN @ (w2 @ SPREAD @ INS @ y))"
    by (rule no_straddle2_spaces [OF assms(1)])
  then have "rule2 (x @ ?m @ y) = rule2 x @ rule2 (?m @ y)"
    using rule2_append [of x "?m @ y"] by (simp add: shape_def)
  with 2 show ?thesis by simp
qed

lemma patch_Nil: "patch [] = []"
  by (simp add: patch_def rule1_Nil rule2_Nil)

lemma patch_occurrence:
  assumes "spaces w1" "spaces w2"
  shows "patch (a @ shape w1 w2 @ b) = patch a @ shape w1 w2 @ INS @ patch b"
  unfolding patch_def rule1_occurrence [OF assms] by (rule rule2_shape_INS [OF assms])

lemma patch_length: "length s \<le> length (patch s)"
  unfolding patch_def using rule1_length [of s] rule2_length [of "rule1 s"] by simp

lemma no_straddle1_last:
  assumes "x \<noteq> []" "\<not> is_space (last x)" "last x \<notin> set RETURN" "last x \<notin> set SPREAD"
  shows "\<not> straddle1 x t"
proof
  assume "straddle1 x t"
  then obtain w1 w2 m1 m2 where sp: "spaces w1" "spaces w2" and ne: "m1 \<noteq> []"
    and e: "shape w1 w2 = m1 @ m2" and s: "suffix m1 x"
    unfolding straddle1_def by blast
  have "last m1 = last x" using s ne by (simp add: suffix_last)
  then have "last x \<in> set m1" using ne last_in_set by metis
  then have "last x \<in> set (shape w1 w2)" unfolding e by simp
  then have "last x \<in> set w1 \<union> set w2" using assms(3,4) by (auto simp: shape_def)
  then have "is_space (last x)" using sp by (auto simp: spaces_def list_all_iff)
  with assms(2) show False by simp
qed

lemma brace_in_shape: "123 \<in> set (shape w1 w2)"
  by (simp add: shape_def RETURN_code)

lemma rule1_no_brace: "123 \<notin> set s \<Longrightarrow> rule1 s = s"
proof (induction s)
  case Nil
  show ?case by (simp add: rule1_Nil)
next
  case (Cons y ys)
  have "after_shape (y # ys) = None"
  proof (cases "after_shape (y # ys)")
    case (Some r)
    from after_shape_sound [OF this] obtain w1 w2 where "y # ys = shape w1 w2 @ r" by blast
    then have "123 \<in> set (y # ys)" using brace_in_shape [of w1 w2] by (metis Un_iff set_append)
    with Cons.prems show ?thesis by simp
  qed simp
  with Cons show ?case by (simp add: rule1_Cons)
qed

lemma rule1_INS: "rule1 (INS @ y) = INS @ rule1 y"
proof -
  have "\<not> straddle1 INS y"
    by (rule no_straddle1_last) (simp_all add: INS_code RETURN_code SPREAD_code is_space_def)
  moreover have "rule1 INS = INS" by (rule rule1_no_brace) (simp add: INS_code)
  ultimately show ?thesis by (simp add: rule1_append)
qed

lemma rule2_INS: "rule2 (INS @ y) = INS @ rule2 y"
proof -
  have "\<not> straddle2 INS y"
    by (rule no_straddle2_last) (simp_all add: INS_code TOKEN_code)
  moreover have "rule2 INS = INS"
    by (intro rule2_no_occurrence no_TOKEN_without_w) (simp add: INS_code)
  ultimately show ?thesis by (simp add: rule2_append)
qed

lemma patch_INS: "patch (INS @ y) = INS @ patch y"
  by (simp add: patch_def rule1_INS rule2_INS)

lemma patch_twice:
  assumes "spaces w1" "spaces w2"
  shows "patch (patch (a @ shape w1 w2 @ b)) =
         patch (patch a) @ shape w1 w2 @ INS @ INS @ patch (patch b)"
  by (simp add: patch_occurrence [OF assms] patch_INS)

definition has_shape :: "str \<Rightarrow> bool" where
  \<comment> \<open>the text contains an occurrence of the shape\<close>
  "has_shape c \<longleftrightarrow> (\<exists>a w1 w2 b. spaces w1 \<and> spaces w2 \<and> c = a @ shape w1 w2 @ b)"

lemma has_shape_comma: "has_shape c \<Longrightarrow> 44 \<in> set c"
  unfolding has_shape_def using comma_in_shape by auto

lemma has_shape_Cons: "has_shape ys \<Longrightarrow> has_shape (y # ys)"
  unfolding has_shape_def by (metis append_Cons)

lemma rule1_no_occurrence: "\<not> has_shape c \<Longrightarrow> rule1 c = c"
proof (induction c)
  case Nil
  show ?case by (simp add: rule1_Nil)
next
  case (Cons y ys)
  have "after_shape (y # ys) = None"
  proof (cases "after_shape (y # ys)")
    case (Some r)
    from after_shape_sound [OF this] obtain w1 w2
      where "spaces w1" "spaces w2" "y # ys = [] @ shape w1 w2 @ r" by auto
    then have "has_shape (y # ys)" unfolding has_shape_def by blast
    with Cons.prems show ?thesis by simp
  qed simp
  moreover have "\<not> has_shape ys" using Cons.prems has_shape_Cons by blast
  ultimately show ?case using Cons.IH by (simp add: rule1_Cons)
qed

lemma rule1_changes: "has_shape c \<Longrightarrow> length c < length (rule1 c)"
proof -
  assume "has_shape c"
  then obtain a w1 w2 b where sp: "spaces w1" "spaces w2" and c: "c = a @ shape w1 w2 @ b"
    unfolding has_shape_def by blast
  have "length (rule1 c) = length (rule1 a) + length (shape w1 w2) + length INS + length (rule1 b)"
    unfolding c rule1_occurrence [OF sp] by simp
  moreover have "length INS = 98" by (simp add: INS_code)
  moreover have "length c = length a + length (shape w1 w2) + length b" unfolding c by simp
  ultimately show ?thesis using rule1_length [of a] rule1_length [of b] by linarith
qed








section \<open>The claims\<close>


text \<open>
  C9. Rule 2 alone is idempotent: applied to its own output it changes nothing.
\<close>

theorem rule2_idempotent: "rule2 (rule2 t) = rule2 t"
  by (rule rule2_idem)

lemma has_shape_length: "has_shape c \<Longrightarrow> 21 \<le> length c"
  unfolding has_shape_def
  by (auto simp: shape_def spaces_def length_RETURN length_SPREAD neq_Nil_conv)

definition posix_world :: "str \<Rightarrow> world" where
  \<comment> \<open>a POSIX system holding the target file alone, readable and writable, with this content\<close>
  "posix_world raw =
     \<lparr>files = [PATH \<mapsto> \<lparr>readable = True, writable = True, decoded = Some raw\<rparr>],
      linesep = [LF], argv = [], environ = Map.empty, stdout = [], trace = []\<rparr>"

text \<open>
  C10. The transformation never shortens the text: the text written has at least as many
  characters as the text read.
\<close>

theorem patch_never_shortens: "length content \<le> length (patch content)"
  by (rule patch_length)



definition LINE :: str where
  \<comment> \<open>the line of the specification's example\<close>
  "LINE = str_of ''return { ...session,''"

definition ADDED :: str where
  \<comment> \<open>what the specification's example says is added: a line feed, two spaces, the assignment\<close>
  "ADDED = LF # str_of ''  price_amount: session.price_cents, // Map price_cents to price_amount for API consistency''"

lemma LINE_shape: "w @ LINE = shape w [32]"
  by (simp add: LINE_def shape_def str_of_def RETURN_def SPREAD_def)

lemma LINE_code: "LINE = [114, 101, 116, 117, 114, 110, 32, 123, 32, 46, 46, 46, 115, 101, 115, 115, 105, 111, 110, 44]"
  by (simp add: LINE_def str_of_def)

lemma patch_LINE: "patch LINE = LINE"
proof -
  have "\<not> has_shape LINE" using has_shape_length [of LINE] by (auto simp: LINE_code)
  then have "rule1 LINE = LINE" by (rule rule1_no_occurrence)
  moreover have "rule2 LINE = LINE"
    by (intro rule2_no_occurrence no_TOKEN_without_w) (simp add: LINE_code)
  ultimately show ?thesis by (simp add: patch_def)
qed

lemma patch_indented_LINE: "spaces w \<Longrightarrow> patch (w @ LINE) = w @ LINE @ INS"
proof -
  assume w: "spaces w"
  have s: "spaces [32]" by (simp add: spaces_def is_space_def)
  from patch_occurrence [OF w s, of "[]" "[]"] show ?thesis
    by (simp add: LINE_shape [symmetric] patch_Nil)
qed

lemma no_straddle1_comma:
  assumes "x \<noteq> []" "last x = 44"
  shows "\<not> straddle1 x t"
proof
  assume "straddle1 x t"
  then obtain w1 w2 m1 m2 where sp: "spaces w1" "spaces w2" and ne: "m1 \<noteq> []" "m2 \<noteq> []"
    and e: "shape w1 w2 = m1 @ m2" and s: "suffix m1 x"
    unfolding straddle1_def by blast
  have "last m1 = 44" using s ne(1) assms(2) by (simp add: suffix_last)
  then have c: "44 \<in> set m1" using ne(1) last_in_set by metis
  have "butlast (shape w1 w2) = w1 @ RETURN @ w2 @ butlast SPREAD"
    by (simp add: shape_def butlast_append SPREAD_code)
  moreover have "butlast (m1 @ m2) = m1 @ butlast m2" using ne(2) by (simp add: butlast_append)
  ultimately have "m1 @ butlast m2 = w1 @ RETURN @ w2 @ butlast SPREAD" using e by simp
  then have "set m1 \<subseteq> set (w1 @ RETURN @ w2 @ butlast SPREAD)" by (metis set_append Un_upper1)
  with c have "44 \<in> set (w1 @ RETURN @ w2 @ butlast SPREAD)" by blast
  then show False
    using sp by (auto simp: spaces_def list_all_iff is_space_def RETURN_code SPREAD_code)
qed

lemma patch_leading_LINE: "patch (LINE @ b) = LINE @ patch b"
proof -
  have "\<not> has_shape LINE" using has_shape_length [of LINE] by (auto simp: LINE_code)
  then have 1: "rule1 LINE = LINE" by (rule rule1_no_occurrence)
  have "\<not> straddle1 LINE b" by (rule no_straddle1_comma) (simp_all add: LINE_code)
  then have r1: "rule1 (LINE @ b) = LINE @ rule1 b" using 1 by (simp add: rule1_append)
  have 2: "rule2 LINE = LINE"
    by (intro rule2_no_occurrence no_TOKEN_without_w) (simp add: LINE_code)
  have "\<not> straddle2 LINE (rule1 b)"
    by (rule no_straddle2_last) (simp_all add: LINE_code TOKEN_code)
  then have "rule2 (LINE @ rule1 b) = LINE @ rule2 (rule1 b)" using 2 by (simp add: rule2_append)
  with r1 show ?thesis by (simp add: patch_def)
qed

lemma patch_LINE_in_context:
  assumes "spaces w"
  shows "patch (a @ w @ LINE @ b) = patch a @ w @ LINE @ INS @ patch b"
proof -
  have s: "spaces [32]" by (simp add: spaces_def is_space_def)
  have e: "shape w [32] = w @ LINE" by (rule LINE_shape [symmetric])
  show ?thesis using patch_occurrence [OF assms s, of a b] unfolding e by simp
qed

text \<open>
  C5. The example of the specification, \<open>return { ...session,\<close> becoming that line, a line
  feed, two spaces and the assignment, is not what the code does. The line alone is not
  matched, since the pattern starts with \<open>\s+\<close>; and where it is matched, the inserted
  line is indented by eight spaces.
\<close>

theorem example_line_counterexample:
  "patch LINE \<noteq> LINE @ ADDED \<and> patch ([32] @ LINE) \<noteq> [32] @ LINE @ ADDED"
proof -
  have "length (patch LINE) \<noteq> length (LINE @ ADDED)"
    by (simp add: patch_LINE ADDED_def)
  moreover have "spaces [32]" by (simp add: spaces_def is_space_def)
  then have "patch ([32] @ LINE) = [32] @ LINE @ INS" by (rule patch_indented_LINE)
  then have "length (patch ([32] @ LINE)) \<noteq> length ([32] @ LINE @ ADDED)"
    by (simp add: INS_code ADDED_def str_of_def)
  ultimately show ?thesis by auto
qed

text \<open>
  C5, as the code has it. Wherever the line \<open>return { ...session,\<close> stands in the input
  with whitespace before it (its indentation, or the line break that ends the line above),
  that whitespace and the line become the same text followed by a line feed, eight spaces
  and the assignment with its comment, the text before and the text after being rewritten
  in their turn; the line at the very start of the input, with nothing before it, is left
  as it is.
\<close>

theorem example_line_amended:
  assumes "spaces w"
  shows "patch (a @ w @ LINE @ b) =
           patch a @ w @ LINE @
           (LF # str_of ''        price_amount: session.price_cents, // Map price_cents to price_amount for API consistency'') @
           patch b \<and>
         patch (LINE @ b) = LINE @ patch b"
  using patch_LINE_in_context [OF assms, of a b] patch_leading_LINE [of b] by (simp add: INS_def)

theorem example_line_amended_witness:
  "spaces [10, 32, 32] \<and>
   patch ([120] @ [10, 32, 32] @ LINE @ [59]) =
     patch [120] @ [10, 32, 32] @ LINE @
     (LF # str_of ''        price_amount: session.price_cents, // Map price_cents to price_amount for API consistency'') @
     patch [59] \<and>
   patch (LINE @ [59]) = LINE @ patch [59]"
proof -
  have h: "spaces [10, 32, 32]" by (simp add: spaces_def is_space_def)
  show ?thesis using h example_line_amended [OF h, of "[120]" "[59]"] by blast
qed

definition BOTH :: str where
  \<comment> \<open>a content that matches both patterns\<close>
  "BOTH = str_of '' return { ...session, session: newSession''"

lemma BOTH_split: "BOTH = [] @ shape [32] [32] @ 32 # TOKEN @ []"
  by (simp add: BOTH_def shape_def str_of_def RETURN_def SPREAD_def TOKEN_def)

lemma patch_twice_longer:
  assumes "spaces w1" "spaces w2"
  shows "length (patch (a @ shape w1 w2 @ b)) < length (patch (patch (a @ shape w1 w2 @ b)))"
proof -
  have "length (patch (patch (a @ shape w1 w2 @ b))) =
        length (patch (patch a)) + length (shape w1 w2) + 98 + 98 + length (patch (patch b))"
    unfolding patch_twice [OF assms] by (simp add: INS_code)
  moreover have "length (patch (a @ shape w1 w2 @ b)) =
        length (patch a) + length (shape w1 w2) + 98 + length (patch b)"
    unfolding patch_occurrence [OF assms] by (simp add: INS_code)
  ultimately show ?thesis
    using patch_length [of "patch a"] patch_length [of "patch b"] by linarith
qed

text \<open>
  C3. A second run on the once-patched result is not a no-op for a content that matches
  both patterns: rule 1 leaves its match in place, so it matches again.
\<close>

theorem second_run_counterexample:
  "has_shape BOTH \<and> sublist TOKEN BOTH \<and> patch (patch BOTH) \<noteq> patch BOTH"
proof -
  have s: "spaces [32]" by (simp add: spaces_def is_space_def)
  have "has_shape BOTH" unfolding has_shape_def using s BOTH_split by blast
  moreover have "BOTH = (shape [32] [32] @ [32]) @ TOKEN @ []" using BOTH_split by simp
  then have "sublist TOKEN BOTH" unfolding sublist_def by blast
  moreover have "length (patch BOTH) < length (patch (patch BOTH))"
    unfolding BOTH_split by (rule patch_twice_longer [OF s s])
  ultimately show ?thesis by auto
qed

text \<open>
  C3, as the code has it. On every content that holds an occurrence of the shape, and so
  on every content that matches both patterns, a second run changes the once-patched
  result: the assignment is inserted a second time after each occurrence. Rule 2 alone
  changes nothing in the once-patched result.
\<close>

theorem second_run_inserts_again:
  assumes "spaces w1" "spaces w2"
  shows "patch (patch (a @ shape w1 w2 @ b)) =
           patch (patch a) @ shape w1 w2 @ INS @ INS @ patch (patch b) \<and>
         patch (patch (a @ shape w1 w2 @ b)) \<noteq> patch (a @ shape w1 w2 @ b) \<and>
         rule2 (patch (a @ shape w1 w2 @ b)) = patch (a @ shape w1 w2 @ b)"
proof (intro conjI)
  show "patch (patch (a @ shape w1 w2 @ b)) =
          patch (patch a) @ shape w1 w2 @ INS @ INS @ patch (patch b)"
    by (rule patch_twice [OF assms])
  show "patch (patch (a @ shape w1 w2 @ b)) \<noteq> patch (a @ shape w1 w2 @ b)"
    using patch_twice_longer [OF assms, of a b] by auto
  show "rule2 (patch (a @ shape w1 w2 @ b)) = patch (a @ shape w1 w2 @ b)"
    unfolding patch_def by (rule rule2_idem)
qed

theorem second_run_inserts_again_witness:
  "spaces [32] \<and>
   patch (patch ([120] @ shape [32] [32] @ 32 # TOKEN)) =
     patch (patch [120]) @ shape [32] [32] @ INS @ INS @ patch (patch (32 # TOKEN)) \<and>
   patch (patch ([120] @ shape [32] [32] @ 32 # TOKEN)) \<noteq> patch ([120] @ shape [32] [32] @ 32 # TOKEN) \<and>
   rule2 (patch ([120] @ shape [32] [32] @ 32 # TOKEN)) = patch ([120] @ shape [32] [32] @ 32 # TOKEN)"
proof -
  have h: "spaces [32]" by (simp add: spaces_def is_space_def)
  show ?thesis using h second_run_inserts_again [OF h h, of "[120]" "32 # TOKEN"] by blast
qed

lemma patch_BOTH: "patch BOTH = shape [32] [32] @ INS @ 32 # EXPANDED"
proof -
  have s: "spaces [32]" by (simp add: spaces_def is_space_def)
  have "rule1 (32 # TOKEN) = 32 # TOKEN" by (rule rule1_no_comma) (simp add: TOKEN_code)
  moreover have "rule2 (32 # TOKEN) = 32 # rule2 (TOKEN @ [])"
    by (simp add: rule2_Cons) (simp add: TOKEN_code)
  ultimately have "patch (32 # TOKEN) = 32 # EXPANDED"
    unfolding patch_def rule2_TOKEN by (simp add: rule2_Nil)
  with patch_occurrence [OF s s, of "[]" "32 # TOKEN"] show ?thesis
    by (simp add: BOTH_split patch_Nil)
qed

text \<open>
  C6. The file is read once, the text read goes through rule 1 and then rule 2, and the
  result is written once, to the same path: the run adds to the trace one read and then one
  write, and what it writes is rule 2 applied to rule 1 applied to what it read.
\<close>

theorem run_reads_transforms_writes:
  assumes "files w PATH = Some f" "readable f" "writable f" "decoded f = Some raw"
  shows "main w =
    (Inr (),
     w\<lparr>files := (files w)(PATH \<mapsto> f\<lparr>decoded := Some (nl_out (linesep w) (rule2 (rule1 (nl_in raw))))\<rparr>),
       trace := trace w @ [Read PATH (nl_in raw), Write PATH (rule2 (rule1 (nl_in raw)))],
       stdout := stdout w @ [MESSAGE]\<rparr>)"
  using main_ok [OF assms] by (simp add: patch_def)

theorem run_reads_transforms_writes_witness:
  "trace (snd (main (posix_world BOTH))) =
     [Read PATH BOTH, Write PATH (shape [32] [32] @ INS @ 32 # EXPANDED)] \<and>
   files (snd (main (posix_world BOTH))) PATH =
     Some \<lparr>readable = True, writable = True, decoded = Some (shape [32] [32] @ INS @ 32 # EXPANDED)\<rparr>"
proof -
  have "CR \<notin> set BOTH" by (simp add: BOTH_def str_of_def CR_def)
  then have n: "nl_in BOTH = BOTH" by (rule nl_in_no_CR)
  have "files (posix_world BOTH) PATH = Some \<lparr>readable = True, writable = True, decoded = Some BOTH\<rparr>"
    by (simp add: posix_world_def)
  from run_reads_transforms_writes [OF this] show ?thesis
    using patch_BOTH by (simp add: n nl_out_LF posix_world_def patch_def)
qed

text \<open>
  C7. When the read fails, because the file is missing, not readable, or does not decode,
  the run ends with that error and the world is as it was: nothing is written and nothing is
  printed. A failure to open the file for writing ends the run the same way, and leaves the
  file as it was. No error is caught.
\<close>

theorem failure_propagates:
  "(files w PATH = None \<longrightarrow> main w = (Inl FileNotFoundError, w)) \<and>
   (\<forall>f. files w PATH = Some f \<and> \<not> readable f \<longrightarrow> main w = (Inl PermissionError, w)) \<and>
   (\<forall>f. files w PATH = Some f \<and> readable f \<and> decoded f = None \<longrightarrow>
        main w = (Inl UnicodeDecodeError, w)) \<and>
   (\<forall>f raw. files w PATH = Some f \<and> readable f \<and> decoded f = Some raw \<and> \<not> writable f \<longrightarrow>
        main w = (Inl PermissionError, w\<lparr>trace := trace w @ [Read PATH (nl_in raw)]\<rparr>))"
  by (auto simp: main_read_fails read_text_def main_write_fails)

definition world_with :: "node option \<Rightarrow> world" where
  \<comment> \<open>a POSIX system where the target path holds this, and another file stands beside it\<close>
  "world_with n =
     \<lparr>files = (\<lambda>p. if p = PATH then n
                    else if p = ''README.md'' then Some \<lparr>readable = True, writable = True, decoded = Some []\<rparr>
                    else None),
      linesep = [LF], argv = [''fix_price_mapping.py''], environ = Map.empty, stdout = [], trace = []\<rparr>"

theorem failure_propagates_witness:
  "main (world_with None) = (Inl FileNotFoundError, world_with None) \<and>
   main (world_with (Some \<lparr>readable = False, writable = True, decoded = Some BOTH\<rparr>)) =
     (Inl PermissionError, world_with (Some \<lparr>readable = False, writable = True, decoded = Some BOTH\<rparr>)) \<and>
   main (world_with (Some \<lparr>readable = True, writable = True, decoded = None\<rparr>)) =
     (Inl UnicodeDecodeError, world_with (Some \<lparr>readable = True, writable = True, decoded = None\<rparr>)) \<and>
   fst (main (world_with (Some \<lparr>readable = True, writable = False, decoded = Some BOTH\<rparr>))) =
     Inl PermissionError \<and>
   files (snd (main (world_with (Some \<lparr>readable = True, writable = False, decoded = Some BOTH\<rparr>)))) =
     files (world_with (Some \<lparr>readable = True, writable = False, decoded = Some BOTH\<rparr>))"
  using failure_propagates [of "world_with None"]
    failure_propagates [of "world_with (Some \<lparr>readable = False, writable = True, decoded = Some BOTH\<rparr>)"]
    failure_propagates [of "world_with (Some \<lparr>readable = True, writable = True, decoded = None\<rparr>)"]
    failure_propagates [of "world_with (Some \<lparr>readable = True, writable = False, decoded = Some BOTH\<rparr>)"]
  by (simp add: world_with_def)


text \<open>
  C8. The run touches one file, the one at the path written in the script: every other
  file is left as it was, every read and write of the run is at that path, and neither the
  command line nor the environment has any influence on the run.
\<close>

theorem only_the_target_file:
  "(\<forall>p. p \<noteq> PATH \<longrightarrow> files (snd (main w)) p = files w p) \<and>
   (\<exists>evs. trace (snd (main w)) = trace w @ evs \<and> list_all (\<lambda>e. event_path e = PATH) evs) \<and>
   main (w\<lparr>argv := a, environ := e\<rparr>) = (fst (main w), (snd (main w))\<lparr>argv := a, environ := e\<rparr>)"
proof (cases w rule: main_cases)
  case missing
  then show ?thesis by (simp add: main_def read_text_def)
next
  case (unreadable f)
  then show ?thesis by (simp add: main_def read_text_def)
next
  case (undecodable f)
  then show ?thesis by (simp add: main_def read_text_def)
next
  case (readonly f raw)
  then show ?thesis by (simp add: main_def read_text_def write_text_def Let_def)
next
  case (ok f raw)
  then show ?thesis by (simp add: main_def read_text_def write_text_def Let_def)
qed

theorem only_the_target_file_witness:
  "files (snd (main (world_with (Some \<lparr>readable = True, writable = True, decoded = Some BOTH\<rparr>)))) ''README.md'' =
     Some \<lparr>readable = True, writable = True, decoded = Some []\<rparr> \<and>
   fst (main ((world_with (Some \<lparr>readable = True, writable = True, decoded = Some BOTH\<rparr>))
          \<lparr>argv := [''fix_price_mapping.py'', ''other.ts''], environ := [''TARGET'' \<mapsto> ''other.ts'']\<rparr>)) =
     fst (main (world_with (Some \<lparr>readable = True, writable = True, decoded = Some BOTH\<rparr>)))"
  using only_the_target_file
    [where w = "world_with (Some \<lparr>readable = True, writable = True, decoded = Some BOTH\<rparr>)"
       and a = "[''fix_price_mapping.py'', ''other.ts'']" and e = "[''TARGET'' \<mapsto> ''other.ts'']"]
  by (simp add: world_with_def PATH_def)

definition CRLF_TEXT :: str where
  \<comment> \<open>two lines, the first ended by CR LF; neither pattern occurs\<close>
  "CRLF_TEXT = str_of ''a'' @ [CR, LF] @ str_of ''b''"

lemma CRLF_TEXT_code: "CRLF_TEXT = [97, 13, 10, 98]"
  by (simp add: CRLF_TEXT_def str_of_def CR_def LF_def)

text \<open>
  C4. A file with no occurrence of either pattern is not always written back byte for
  byte: the file is opened in text mode, so on a POSIX system a line ending CR LF is read
  as LF and written as LF.
\<close>

theorem unchanged_bytes_counterexample:
  "\<not> has_shape CRLF_TEXT \<and> \<not> sublist TOKEN CRLF_TEXT \<and>
   files (snd (main (posix_world CRLF_TEXT))) PATH \<noteq> files (posix_world CRLF_TEXT) PATH"
proof -
  let ?f = "\<lparr>readable = True, writable = True, decoded = Some CRLF_TEXT\<rparr>"
  have 1: "\<not> has_shape CRLF_TEXT" using has_shape_length [of CRLF_TEXT] by (auto simp: CRLF_TEXT_code)
  have 2: "\<not> sublist TOKEN CRLF_TEXT"
    by (rule no_TOKEN_without_w) (simp add: CRLF_TEXT_code)
  have n: "nl_in CRLF_TEXT = [97, 10, 98]" by (simp add: CRLF_TEXT_code CR_def LF_def)
  have "rule1 [97, 10, 98] = [97, 10, 98]" by (rule rule1_no_comma) simp
  moreover have "rule2 [97, 10, 98] = [97, 10, 98]"
    by (intro rule2_no_occurrence no_TOKEN_without_w) simp
  ultimately have p: "patch [97, 10, 98] = [97, 10, 98]" by (simp add: patch_def)
  have f: "files (posix_world CRLF_TEXT) PATH = Some ?f" by (simp add: posix_world_def)
  have l: "linesep (posix_world CRLF_TEXT) = [LF]" by (simp add: posix_world_def)
  have "files (snd (main (posix_world CRLF_TEXT))) PATH = Some (?f\<lparr>decoded := Some [97, 10, 98]\<rparr>)"
    unfolding main_ok [OF f, of CRLF_TEXT, simplified] by (simp add: n p l nl_out_LF)
  then have "files (snd (main (posix_world CRLF_TEXT))) PATH \<noteq> files (posix_world CRLF_TEXT) PATH"
    unfolding f by (simp add: CRLF_TEXT_code)
  with 1 2 show ?thesis by blast
qed

text \<open>
  C4, as the code has it. On a content with no occurrence of either pattern each
  substitution is the identity, so the text written is the text read. The file itself is
  left byte for byte as it was when, besides, it holds no carriage return and the line
  separator of the system is the line feed.
\<close>

theorem no_match_unchanged:
  assumes "\<not> has_shape content" "\<not> sublist TOKEN content"
  shows "rule1 content = content \<and> rule2 content = content \<and> patch content = content \<and>
         (\<forall>w f. files w PATH = Some f \<and> readable f \<and> writable f \<and> decoded f = Some content \<and>
                CR \<notin> set content \<and> linesep w = [LF] \<longrightarrow>
                fst (main w) = Inr () \<and> files (snd (main w)) = files w)"
proof -
  have 1: "rule1 content = content" using assms(1) by (rule rule1_no_occurrence)
  have 2: "rule2 content = content" using assms(2) by (rule rule2_no_occurrence)
  have 3: "patch content = content" by (simp add: patch_def 1 2)
  have "fst (main w) = Inr () \<and> files (snd (main w)) = files w"
    if a: "files w PATH = Some f" "readable f" "writable f" "decoded f = Some content"
      and b: "CR \<notin> set content" "linesep w = [LF]" for w f
  proof -
    have "f\<lparr>decoded := Some content\<rparr> = f" using a(4) by simp
    then have "(files w)(PATH \<mapsto> f\<lparr>decoded := Some content\<rparr>) = files w"
      using a(1) by (simp add: fun_upd_idem)
    then show ?thesis
      using main_ok [OF a] b by (simp add: nl_in_no_CR nl_out_LF 3)
  qed
  with 1 2 3 show ?thesis by blast
qed

definition PLAIN :: str where
  "PLAIN = str_of ''const x = 1;''"

theorem no_match_unchanged_witness:
  "\<not> has_shape PLAIN \<and> \<not> sublist TOKEN PLAIN \<and>
   rule1 PLAIN = PLAIN \<and> rule2 PLAIN = PLAIN \<and> patch PLAIN = PLAIN \<and>
   fst (main (posix_world PLAIN)) = Inr () \<and>
   files (snd (main (posix_world PLAIN))) = files (posix_world PLAIN)"
proof -
  have c: "PLAIN = [99, 111, 110, 115, 116, 32, 120, 32, 61, 32, 49, 59]"
    by (simp add: PLAIN_def str_of_def)
  have h1: "\<not> has_shape PLAIN" using has_shape_length [of PLAIN] by (auto simp: c)
  have h2: "\<not> sublist TOKEN PLAIN" by (rule no_TOKEN_without_w) (simp add: c)
  have "files (posix_world PLAIN) PATH = Some \<lparr>readable = True, writable = True, decoded = Some PLAIN\<rparr>"
    "linesep (posix_world PLAIN) = [LF]" "CR \<notin> set PLAIN"
    by (simp_all add: posix_world_def c CR_def)
  with h1 h2 no_match_unchanged [OF h1 h2] show ?thesis by auto
qed

end
